theory Spec2Isabelle
  imports Complex_Main
begin

section \<open>The connection pool of useMySQL.py\<close>

text \<open>
  The module \<^verbatim>\<open>useMySQL.py\<close> wraps the pymysql driver in a class
  \<^verbatim>\<open>MySQLDatabase\<close> holding a bounded \<^verbatim>\<open>queue.Queue\<close> of connections.
  The driver, the clock and the queue are outside the module; the model makes them
  explicit:
  \<^item> the driver is a script (\<open>driver\<close>) that says how the k-th call of
    \<^verbatim>\<open>pymysql.connect\<close>, the k-th \<^verbatim>\<open>ping\<close> and the k-th statement end;
  \<^item> the object is a state (\<open>world\<close>) holding the queue, the three call counters and
    the trace of the calls made so far;
  \<^item> a call that raises returns \<open>Raised e\<close>, a call that waits forever on the empty
    queue returns \<open>Blocked\<close>.
  Durations are Python floats in the source and rationals here. \<^verbatim>\<open>time.sleep\<close>,
  \<^verbatim>\<open>conn.close\<close> and \<^verbatim>\<open>put_nowait\<close> are taken to return (a negative duration,
  which \<^verbatim>\<open>time.sleep\<close> rejects, is outside the model); \<^verbatim>\<open>logger\<close> calls are left
  out, and so is \<^verbatim>\<open>__init__\<close>, which fills the queue with \<open>pool_size\<close>
  connections.
\<close>

subsection \<open>Values, exceptions and outcomes\<close>

type_synonym conn = nat
type_synonym sql = string

datatype pyval = PyNone | PyBool bool | PyInt int | PyStr string | PyList "pyval list"

datatype exn =
    OperationalError string
  | MySQLError string
  | DatabaseConnectionError string int
  | DatabaseOperationFailed sql pyval
  | OtherException string

text \<open>
  \<open>OperationalError\<close> is \<^verbatim>\<open>pymysql.OperationalError\<close>, \<open>MySQLError\<close> any other
  instance of \<^verbatim>\<open>pymysql.MySQLError\<close>; the two custom classes derive from
  \<^verbatim>\<open>Exception\<close> only. The two predicates are the \<^verbatim>\<open>except\<close> clauses of the source.
\<close>

fun is_OperationalError :: "exn \<Rightarrow> bool" where
  "is_OperationalError (OperationalError m) = True"
| "is_OperationalError e = False"

fun is_MySQLError :: "exn \<Rightarrow> bool" where
  "is_MySQLError (OperationalError m) = True"
| "is_MySQLError (MySQLError m) = True"
| "is_MySQLError e = False"

datatype 'a outcome = Returned 'a | Raised exn | Blocked

subsection \<open>The driver, the configuration and the state\<close>

datatype connect_outcome = Connected conn | Connect_raise exn

datatype issue_outcome = Issued pyval pyval | Issue_raise exn

text \<open>
  \<open>Issued rows rowid\<close>: the statement ran and the commit succeeded; \<open>rows\<close> is what
  \<^verbatim>\<open>fetchall\<close> gives and \<open>rowid\<close> what \<^verbatim>\<open>lastrowid\<close> gives.
  \<open>Issue_raise e\<close>: the first failing call among cursor, execute, fetch and commit
  raised \<open>e\<close>.
\<close>

record driver =
  connect_result :: "nat \<Rightarrow> connect_outcome"
  ping_ok :: "nat \<Rightarrow> conn \<Rightarrow> bool"
  issue_result :: "nat \<Rightarrow> conn \<Rightarrow> issue_outcome"

record config =
  host :: string
  port :: int
  pool_size :: int
  retry_backoff_base :: rat

datatype event =
    Connect
  | Sleep_connect rat
  | Get conn
  | Ping conn
  | Close conn
  | Put conn
  | Acquire conn
  | Run conn sql pyval
  | Release conn
  | Sleep_execute rat

text \<open>
  \<open>Connect\<close>: \<^verbatim>\<open>pymysql.connect\<close> is called (line 51). \<open>Sleep_connect d\<close>:
  \<^verbatim>\<open>time.sleep(d)\<close> in \<^verbatim>\<open>create_conn\<close> (line 63). \<open>Get c\<close>: \<^verbatim>\<open>pool.get()\<close>
  hands out \<open>c\<close> (line 71). \<open>Ping c\<close>, \<open>Close c\<close>: the calls on the connection.
  \<open>Put c\<close>: \<^verbatim>\<open>put_nowait\<close> stored \<open>c\<close> (line 83). \<open>Acquire c\<close>: \<^verbatim>\<open>get_conn\<close>
  returned \<open>c\<close> to \<^verbatim>\<open>execute\<close> (line 92). \<open>Run c q ps\<close>: the statement is issued on
  \<open>c\<close> (lines 93 to 101). \<open>Release c\<close>: \<^verbatim>\<open>execute\<close> calls \<^verbatim>\<open>release_conn(c)\<close>
  (line 117). \<open>Sleep_execute d\<close>: \<^verbatim>\<open>time.sleep(d)\<close> in \<^verbatim>\<open>execute\<close> (line 119).
\<close>

record world =
  pool :: "conn list"
  connects :: nat
  pings :: nat
  issues :: nat
  trace :: "event list"

definition log :: "event list \<Rightarrow> world \<Rightarrow> world" where
  "log es s = s\<lparr>trace := trace s @ es\<rparr>"

definition new_events :: "world \<Rightarrow> world \<Rightarrow> event list" where
  "new_events s s' = drop (length (trace s)) (trace s')"

subsection \<open>create_conn\<close>

function create_conn_loop ::
  "driver \<Rightarrow> config \<Rightarrow> int \<Rightarrow> rat \<Rightarrow> world \<Rightarrow> conn option outcome \<times> world" where
  "create_conn_loop d cfg retries delay s =
     (if retries > 0 then
        (let s1 = s\<lparr>connects := connects s + 1, trace := trace s @ [Connect]\<rparr> in
         case connect_result d (connects s) of
           Connected c \<Rightarrow> (Returned (Some c), s1)
         | Connect_raise e \<Rightarrow>
             if is_MySQLError e then
               (let s2 = log [Sleep_connect delay] s1 in
                if retries - 1 \<le> 0
                then (Raised (DatabaseConnectionError (host cfg) (port cfg)), s2)
                else create_conn_loop d cfg (retries - 1) (delay * retry_backoff_base cfg) s2)
             else (Raised e, s1))
      else (Returned None, s))"
  by pat_completeness auto
termination
  by (relation "measure (\<lambda>(d, cfg, retries, delay, s). nat retries)") auto

declare create_conn_loop.simps [simp del]

definition create_conn :: "driver \<Rightarrow> config \<Rightarrow> int \<Rightarrow> world \<Rightarrow> conn option outcome \<times> world" where
  "create_conn d cfg retries s = create_conn_loop d cfg retries (retry_backoff_base cfg) s"

subsection \<open>get_conn and release_conn\<close>

text \<open>
  The queue is first in, first out. \<^verbatim>\<open>pool.get()\<close> on the empty queue waits for
  another thread; in this sequential model it waits forever.
\<close>

function get_conn :: "driver \<Rightarrow> config \<Rightarrow> world \<Rightarrow> conn option outcome \<times> world" where
  "get_conn d cfg s =
     (case pool s of
        [] \<Rightarrow> (Blocked, s)
      | c # rest \<Rightarrow>
          (let s1 = s\<lparr>pool := rest, pings := pings s + 1, trace := trace s @ [Get c, Ping c]\<rparr> in
           if ping_ok d (pings s) c then (Returned (Some c), s1)
           else (let s2 = log [Close c] s1 in
                 if pool s2 = [] then create_conn d cfg 3 s2
                 else get_conn d cfg s2)))"
  by pat_completeness auto
termination
  by (relation "measure (\<lambda>(d, cfg, s). length (pool s))") (auto simp: log_def)

declare get_conn.simps [simp del]

text \<open>
  \<^verbatim>\<open>Queue(maxsize=pool_size)\<close>: \<^verbatim>\<open>put_nowait\<close> raises \<^verbatim>\<open>Full\<close> when
  \<^verbatim>\<open>0 < maxsize <= qsize\<close>; a queue whose \<^verbatim>\<open>maxsize\<close> is not positive is unbounded.
\<close>

definition release_conn :: "config \<Rightarrow> conn \<Rightarrow> world \<Rightarrow> world" where
  "release_conn cfg c s =
     (if 0 < pool_size cfg \<and> pool_size cfg \<le> int (length (pool s))
      then log [Close c] s
      else s\<lparr>pool := pool s @ [c], trace := trace s @ [Put c]\<rparr>)"

subsection \<open>execute\<close>

datatype 'a step = Again | Done "'a outcome"

definition handler :: "exn \<Rightarrow> world \<Rightarrow> pyval step \<times> world" where
  "handler e s = (if is_OperationalError e then (Again, s) else (Done (Raised e), s))"

definition finally_block :: "config \<Rightarrow> conn option \<Rightarrow> rat \<Rightarrow> world \<Rightarrow> world" where
  "finally_block cfg conn delay s =
     log [Sleep_execute delay]
       (case conn of None \<Rightarrow> s | Some c \<Rightarrow> release_conn cfg c (log [Release c] s))"

definition attempt ::
  "driver \<Rightarrow> config \<Rightarrow> sql \<Rightarrow> pyval \<Rightarrow> bool \<Rightarrow> bool \<Rightarrow> rat \<Rightarrow> world \<Rightarrow> pyval step \<times> world" where
  "attempt d cfg q params fetch lastrowid delay s =
     (case get_conn d cfg s of
        (Blocked, s1) \<Rightarrow> (Done Blocked, s1)
      | (Raised e, s1) \<Rightarrow> handler e (finally_block cfg None delay s1)
      | (Returned None, s1) \<Rightarrow>
          handler (OtherException ''AttributeError'') (finally_block cfg None delay s1)
      | (Returned (Some c), s1) \<Rightarrow>
          (let s2 = s1\<lparr>issues := issues s1 + 1, trace := trace s1 @ [Acquire c, Run c q params]\<rparr> in
           case issue_result d (issues s1) c of
             Issued rows rowid \<Rightarrow>
               (Done (Returned (if fetch then rows else if lastrowid then rowid else PyBool True)),
                finally_block cfg (Some c) delay s2)
           | Issue_raise e \<Rightarrow> handler e (finally_block cfg (Some c) delay s2)))"

function execute_loop ::
  "driver \<Rightarrow> config \<Rightarrow> sql \<Rightarrow> pyval \<Rightarrow> bool \<Rightarrow> bool \<Rightarrow> int \<Rightarrow> rat \<Rightarrow> world \<Rightarrow> pyval outcome \<times> world" where
  "execute_loop d cfg q params fetch lastrowid retries delay s =
     (if retries > 0 then
        (case attempt d cfg q params fetch lastrowid delay s of
           (Done r, s') \<Rightarrow> (r, s')
         | (Again, s') \<Rightarrow>
             execute_loop d cfg q params fetch lastrowid (retries - 1)
               (delay * retry_backoff_base cfg) s')
      else (Raised (DatabaseOperationFailed q params), s))"
  by pat_completeness auto
termination
  by (relation "measure (\<lambda>(d, cfg, q, params, fetch, lastrowid, retries, delay, s). nat retries)") auto

declare execute_loop.simps [simp del]

definition execute ::
  "driver \<Rightarrow> config \<Rightarrow> sql \<Rightarrow> pyval \<Rightarrow> int \<Rightarrow> bool \<Rightarrow> bool \<Rightarrow> world \<Rightarrow> pyval outcome \<times> world" where
  "execute d cfg q params retries fetch lastrowid s =
     execute_loop d cfg q params fetch lastrowid retries (retry_backoff_base cfg) s"

subsection \<open>batch_insert\<close>

fun join :: "string \<Rightarrow> string list \<Rightarrow> string" where
  "join sep [] = []"
| "join sep [x] = x"
| "join sep (x # y # ys) = x @ sep @ join sep (y # ys)"

definition insert_sql :: "string \<Rightarrow> string list \<Rightarrow> sql" where
  "insert_sql table_name columns =
     ''INSERT INTO '' @ table_name @ '' ('' @ join '','' columns @ '') VALUES (''
       @ join '', '' (replicate (length columns) ''%s'') @ '')''"

text \<open>
  \<^verbatim>\<open>range(0, total_count, batch_size)\<close>: a positive step counts up while
  \<open>i < total_count\<close>, a negative one counts down while \<open>i > total_count\<close>, and the
  step 0 raises \<^verbatim>\<open>ValueError\<close>.
\<close>

function batch_insert_loop ::
  "driver \<Rightarrow> config \<Rightarrow> sql \<Rightarrow> pyval list \<Rightarrow> int \<Rightarrow> int \<Rightarrow> world \<Rightarrow> pyval outcome \<times> world" where
  "batch_insert_loop d cfg sql_base data_list batch_size i s =
     (if batch_size \<noteq> 0 \<and>
         (if 0 < batch_size then i < int (length data_list) else int (length data_list) < i)
      then
        (case execute d cfg sql_base
                (PyList (take (nat batch_size) (drop (nat i) data_list))) 3 False False s of
           (Returned r, s') \<Rightarrow>
             batch_insert_loop d cfg sql_base data_list batch_size (i + batch_size) s'
         | (Raised e, s') \<Rightarrow> (Raised e, s')
         | (Blocked, s') \<Rightarrow> (Blocked, s'))
      else (Returned PyNone, s))"
  by pat_completeness auto
termination
  by (relation "measure (\<lambda>(d, cfg, sql_base, data_list, batch_size, i, s).
        if 0 < batch_size then nat (int (length data_list) - i)
        else nat (i - int (length data_list)))") auto

declare batch_insert_loop.simps [simp del]

definition batch_insert ::
  "driver \<Rightarrow> config \<Rightarrow> string \<Rightarrow> string list \<Rightarrow> pyval list \<Rightarrow> int \<Rightarrow> world \<Rightarrow> pyval outcome \<times> world" where
  "batch_insert d cfg table_name columns data_list batch_size s =
     (if batch_size = 0 then (Raised (OtherException ''ValueError''), s)
      else batch_insert_loop d cfg (insert_sql table_name columns) data_list batch_size 0 s)"

subsection \<open>Reading a trace\<close>

text \<open>
  The events of the pool and of the factory, as opposed to those \<^verbatim>\<open>execute\<close> adds
  itself.
\<close>

fun pool_event :: "event \<Rightarrow> bool" where
  "pool_event (Acquire c) = False"
| "pool_event (Run c q ps) = False"
| "pool_event (Release c) = False"
| "pool_event (Sleep_execute t) = False"
| "pool_event e = True"



text \<open>
  What a caller sees of \<^verbatim>\<open>execute\<close> on the wire and on the clock: the statements
  issued (one per attempt that reached the driver) and the sleeps of line 119, in order.
\<close>

datatype tick = Statement sql pyval | Wait rat

fun timeline :: "event list \<Rightarrow> tick list" where
  "timeline [] = []"
| "timeline (Run c q ps # es) = Statement q ps # timeline es"
| "timeline (Sleep_execute t # es) = Wait t # timeline es"
| "timeline (e # es) = timeline es"

text \<open>
  \<open>grows P s s'\<close>: the trace of \<open>s'\<close> is the trace of \<open>s\<close> followed by events
  that all satisfy \<open>P\<close>.
\<close>

definition grows :: "(event \<Rightarrow> bool) \<Rightarrow> world \<Rightarrow> world \<Rightarrow> bool" where
  "grows P s s' =
     (take (length (trace s)) (trace s') = trace s \<and>
      list_all P (drop (length (trace s)) (trace s')))"

text \<open>
  \<open>balanced h es\<close>: \<open>h\<close> is the connection \<^verbatim>\<open>execute\<close> holds before \<open>es\<close>. A
  connection is acquired only while none is held, the one released is the one held, and
  none is held at the end.
\<close>

fun balanced :: "conn option \<Rightarrow> event list \<Rightarrow> bool" where
  "balanced h [] = (h = None)"
| "balanced h (Acquire c # es) = (h = None \<and> balanced (Some c) es)"
| "balanced h (Release c # es) = (h = Some c \<and> balanced None es)"
| "balanced h (e # es) = balanced h es"

text \<open>
  \<open>put_back p es\<close>: each \<open>Release c\<close> in \<open>es\<close> is followed at once by \<open>Put c\<close>, so
  the released connection went into the queue and was not closed; \<open>p\<close> is the connection
  whose \<open>Put\<close> is due at the start of \<open>es\<close>.
\<close>

fun put_back :: "conn option \<Rightarrow> event list \<Rightarrow> bool" where
  "put_back None [] = True"
| "put_back (Some c) [] = False"
| "put_back (Some c) (e # es) = (e = Put c \<and> put_back None es)"
| "put_back None (Release c # es) = put_back (Some c) es"
| "put_back None (e # es) = put_back None es"

text \<open>
  The invariant of the queue: a bounded queue holds at most \<^verbatim>\<open>maxsize\<close> items.
\<close>

definition within_capacity :: "config \<Rightarrow> world \<Rightarrow> bool" where
  "within_capacity cfg s = (pool_size cfg \<le> 0 \<or> int (length (pool s)) \<le> pool_size cfg)"

text \<open>
  \<open>connectivity_failures \<dots> n delay s\<close>: each of the next \<open>n\<close> iterations of the loop
  of \<^verbatim>\<open>execute\<close>, started in \<open>s\<close> with the delay \<open>delay\<close>, ends in the handler of
  \<^verbatim>\<open>pymysql.OperationalError\<close> (line 103).
\<close>

fun connectivity_failures ::
  "driver \<Rightarrow> config \<Rightarrow> sql \<Rightarrow> pyval \<Rightarrow> bool \<Rightarrow> bool \<Rightarrow> nat \<Rightarrow> rat \<Rightarrow> world \<Rightarrow> bool" where
  "connectivity_failures d cfg q params fetch lastrowid 0 delay s = True"
| "connectivity_failures d cfg q params fetch lastrowid (Suc n) delay s =
     (case attempt d cfg q params fetch lastrowid delay s of
        (Again, s') \<Rightarrow>
          connectivity_failures d cfg q params fetch lastrowid n
            (delay * retry_backoff_base cfg) s'
      | (Done r, s') \<Rightarrow> False)"

subsection \<open>Chunks\<close>

text \<open>
  The chunks of the specification: the list cut into pieces of \<open>n\<close> elements, the last
  one shorter when \<open>n\<close> does not divide the length. \<open>run_all\<close> runs calls one after
  the other and stops at the first that does not return.
\<close>

function chunks :: "nat \<Rightarrow> 'a list \<Rightarrow> 'a list list" where
  "chunks n xs = (if n = 0 \<or> xs = [] then [] else take n xs # chunks n (drop n xs))"
  by pat_completeness auto
termination
  by (relation "measure (\<lambda>(n, xs). length xs)") auto

declare chunks.simps [simp del]

fun run_all :: "(world \<Rightarrow> pyval outcome \<times> world) list \<Rightarrow> world \<Rightarrow> pyval outcome \<times> world" where
  "run_all [] s = (Returned PyNone, s)"
| "run_all (f # fs) s =
     (case f s of
        (Returned r, s') \<Rightarrow> run_all fs s'
      | (Raised e, s') \<Rightarrow> (Raised e, s')
      | (Blocked, s') \<Rightarrow> (Blocked, s'))"

subsection \<open>Concrete inputs\<close>

text \<open>
  A pool of one connection on the default backoff base, and a driver whose connections
  open, answer the probe and run every statement.
\<close>

definition demo_config :: config where
  "demo_config = \<lparr>host = ''db.local'', port = 3306, pool_size = 1, retry_backoff_base = 3 / 2\<rparr>"

definition demo_world :: world where
  "demo_world = \<lparr>pool = [0], connects = 0, pings = 0, issues = 0, trace = []\<rparr>"

definition healthy_driver :: driver where
  "healthy_driver =
     \<lparr>connect_result = (\<lambda>k. Connected (100 + k)),
      ping_ok = (\<lambda>k c. True),
      issue_result = (\<lambda>k c. Issued (PyList []) (PyInt 1))\<rparr>"

text \<open>
  Drivers that fail: every statement loses the link, every statement is rejected by the
  server, every probe fails, and every probe and every connection attempt fails.
\<close>

definition dropping_driver :: driver where
  "dropping_driver =
     healthy_driver\<lparr>issue_result := (\<lambda>k c. Issue_raise (OperationalError ''2013 Lost connection''))\<rparr>"

definition rejecting_driver :: driver where
  "rejecting_driver =
     healthy_driver\<lparr>issue_result := (\<lambda>k c. Issue_raise (MySQLError ''1062 Duplicate entry''))\<rparr>"

definition broken_driver :: driver where
  "broken_driver = healthy_driver\<lparr>ping_ok := (\<lambda>k c. False)\<rparr>"


text \<open>
  A driver on which connection 0 has gone stale while the others answer, and one whose
  first connection attempt fails with a MySQL error and whose later ones raise an exception
  that is not a \<^verbatim>\<open>MySQLError\<close>.
\<close>

definition stale_driver :: driver where
  "stale_driver = healthy_driver\<lparr>ping_ok := (\<lambda>k c. c \<noteq> 0)\<rparr>"


definition five_records :: "pyval list" where
  "five_records =
     [PyList [PyInt 1, PyStr ''a''], PyList [PyInt 2, PyStr ''b''], PyList [PyInt 3, PyStr ''c''],
      PyList [PyInt 4, PyStr ''d''], PyList [PyInt 5, PyStr ''e'']]"

section \<open>Lemmas\<close>

subsection \<open>Traces that grow\<close>

lemma grows_iff: "grows P s s' \<longleftrightarrow> (\<exists>es. trace s' = trace s @ es \<and> list_all P es)"
  unfolding grows_def
  by (metis append_eq_conv_conj)

lemma grows_refl [simp]: "grows P s s"
  by (simp add: grows_iff)

lemma grows_trans: "grows P s s1 \<Longrightarrow> grows P s1 s2 \<Longrightarrow> grows P s s2"
  by (auto simp: grows_iff)

lemma grows_append: "grows P s1 s2 \<Longrightarrow> trace s1 = trace s @ es \<Longrightarrow> list_all P es \<Longrightarrow> grows P s s2"
  by (auto simp: grows_iff)

lemma grows_all: "grows P s s' \<Longrightarrow> list_all P (new_events s s')"
  by (auto simp: grows_def new_events_def)

subsection \<open>One step of each loop\<close>

lemma create_conn_loop_none:
  "retries \<le> 0 \<Longrightarrow> create_conn_loop d cfg retries delay s = (Returned None, s)"
  by (subst create_conn_loop.simps) simp

lemma create_conn_loop_connected:
  "0 < retries \<Longrightarrow> connect_result d (connects s) = Connected c \<Longrightarrow>
   create_conn_loop d cfg retries delay s =
     (Returned (Some c), s\<lparr>connects := connects s + 1, trace := trace s @ [Connect]\<rparr>)"
  by (subst create_conn_loop.simps) simp

lemma create_conn_loop_fatal:
  "0 < retries \<Longrightarrow> connect_result d (connects s) = Connect_raise e \<Longrightarrow> \<not> is_MySQLError e \<Longrightarrow>
   create_conn_loop d cfg retries delay s =
     (Raised e, s\<lparr>connects := connects s + 1, trace := trace s @ [Connect]\<rparr>)"
  by (subst create_conn_loop.simps) simp

lemma create_conn_loop_last:
  "retries = 1 \<Longrightarrow> connect_result d (connects s) = Connect_raise e \<Longrightarrow> is_MySQLError e \<Longrightarrow>
   create_conn_loop d cfg retries delay s =
     (Raised (DatabaseConnectionError (host cfg) (port cfg)),
      s\<lparr>connects := connects s + 1, trace := trace s @ [Connect, Sleep_connect delay]\<rparr>)"
  by (subst create_conn_loop.simps) (simp add: log_def)

lemma create_conn_loop_retry:
  "1 < retries \<Longrightarrow> connect_result d (connects s) = Connect_raise e \<Longrightarrow> is_MySQLError e \<Longrightarrow>
   create_conn_loop d cfg retries delay s =
     create_conn_loop d cfg (retries - 1) (delay * retry_backoff_base cfg)
       (s\<lparr>connects := connects s + 1, trace := trace s @ [Connect, Sleep_connect delay]\<rparr>)"
  by (subst create_conn_loop.simps) (simp add: log_def)

lemma create_conn_loop_cases:
  obtains (none) "\<not> 0 < (retries::int)"
  | (connected) c where "0 < retries" "connect_result d (connects s) = Connected c"
  | (fatal) e where "0 < retries" "connect_result d (connects s) = Connect_raise e" "\<not> is_MySQLError e"
  | (last) e where "retries = 1" "connect_result d (connects s) = Connect_raise e" "is_MySQLError e"
  | (retry) e where "1 < retries" "connect_result d (connects s) = Connect_raise e" "is_MySQLError e"
proof (cases "connect_result d (connects s)")
  case (Connected c)
  then show ?thesis using none connected by (cases "0 < retries") auto
next
  case (Connect_raise e)
  have "\<not> 0 < retries \<or> retries = 1 \<or> 1 < retries"
    by linarith
  with Connect_raise show ?thesis using none fatal last retry
    by (cases "is_MySQLError e") blast+
qed

lemma get_conn_empty: "pool s = [] \<Longrightarrow> get_conn d cfg s = (Blocked, s)"
  by (subst get_conn.simps) simp

lemma get_conn_live:
  "pool s = c # rest \<Longrightarrow> ping_ok d (pings s) c \<Longrightarrow>
   get_conn d cfg s =
     (Returned (Some c), s\<lparr>pool := rest, pings := pings s + 1, trace := trace s @ [Get c, Ping c]\<rparr>)"
  by (subst get_conn.simps) simp

lemma get_conn_fallback:
  "pool s = [c] \<Longrightarrow> \<not> ping_ok d (pings s) c \<Longrightarrow>
   get_conn d cfg s =
     create_conn d cfg 3
       (s\<lparr>pool := [], pings := pings s + 1, trace := trace s @ [Get c, Ping c, Close c]\<rparr>)"
  by (subst get_conn.simps) (simp add: log_def)

lemma get_conn_next:
  "pool s = c # rest \<Longrightarrow> rest \<noteq> [] \<Longrightarrow> \<not> ping_ok d (pings s) c \<Longrightarrow>
   get_conn d cfg s =
     get_conn d cfg
       (s\<lparr>pool := rest, pings := pings s + 1, trace := trace s @ [Get c, Ping c, Close c]\<rparr>)"
  by (subst get_conn.simps) (simp add: log_def)

subsection \<open>What the factory and the pool add to the trace\<close>

lemma create_conn_loop_grows:
  "grows pool_event s (snd (create_conn_loop d cfg retries delay s))"
proof (induction d cfg retries delay s rule: create_conn_loop.induct)
  case (1 d cfg retries delay s)
  show ?case
  proof (cases rule: create_conn_loop_cases[where retries=retries and d=d and s=s])
    case none
    then show ?thesis by (simp add: create_conn_loop_none)
  next
    case (connected c)
    then show ?thesis by (simp add: create_conn_loop_connected grows_iff)
  next
    case (fatal e)
    then show ?thesis by (simp add: create_conn_loop_fatal grows_iff)
  next
    case (last e)
    then show ?thesis by (simp add: create_conn_loop_last grows_iff)
  next
    case (retry e)
    let ?s2 = "s\<lparr>connects := connects s + 1, trace := trace s @ [Connect, Sleep_connect delay]\<rparr>"
    have "grows pool_event ?s2
            (snd (create_conn_loop d cfg (retries - 1) (delay * retry_backoff_base cfg) ?s2))"
      using "1.IH"[OF _ refl retry(2) retry(3) refl] retry(1) by (simp add: log_def)
    then have "grows pool_event s
            (snd (create_conn_loop d cfg (retries - 1) (delay * retry_backoff_base cfg) ?s2))"
      by (rule grows_append[where es = "[Connect, Sleep_connect delay]"]) simp_all
    then show ?thesis using retry by (simp add: create_conn_loop_retry)
  qed
qed

lemma create_conn_loop_pool:
  "pool (snd (create_conn_loop d cfg retries delay s)) = pool s"
proof (induction d cfg retries delay s rule: create_conn_loop.induct)
  case (1 d cfg retries delay s)
  show ?case
  proof (cases rule: create_conn_loop_cases[where retries=retries and d=d and s=s])
    case (retry e)
    then show ?thesis
      using "1.IH"[OF _ refl retry(2) retry(3) refl] by (simp add: create_conn_loop_retry log_def)
  qed (simp_all add: create_conn_loop_none create_conn_loop_connected create_conn_loop_fatal
         create_conn_loop_last)
qed

lemma create_conn_loop_raises:
  "create_conn_loop d cfg retries delay s = (Raised e, s') \<Longrightarrow> \<not> is_MySQLError e"
proof (induction d cfg retries delay s rule: create_conn_loop.induct)
  case (1 d cfg retries delay s)
  show ?case
  proof (cases rule: create_conn_loop_cases[where retries=retries and d=d and s=s])
    case (retry e')
    then show ?thesis
      using "1.IH"[OF _ refl retry(2) retry(3) refl] "1.prems"
      by (simp add: create_conn_loop_retry log_def)
  qed (use "1.prems" in \<open>auto simp add: create_conn_loop_none create_conn_loop_connected
         create_conn_loop_fatal create_conn_loop_last\<close>)
qed

lemma get_conn_cases:
  obtains (empty) "pool s = []"
  | (live) c rest where "pool s = c # rest" "ping_ok d (pings s) c"
  | (fallback) c where "pool s = [c]" "\<not> ping_ok d (pings s) c"
  | (advance) c rest where "pool s = c # rest" "rest \<noteq> []" "\<not> ping_ok d (pings s) c"
proof (cases "pool s")
  case Nil
  then show ?thesis using empty by simp
next
  case (Cons c rest)
  then show ?thesis using live fallback advance
    by (cases "ping_ok d (pings s) c"; cases "rest = []") auto
qed

lemma get_conn_grows:
  "grows pool_event s (snd (get_conn d cfg s))"
proof (induction d cfg s rule: get_conn.induct)
  case (1 d cfg s)
  show ?case
  proof (cases rule: get_conn_cases[where d=d and s=s])
    case empty
    then show ?thesis by (simp add: get_conn_empty)
  next
    case (live c rest)
    then show ?thesis by (simp add: get_conn_live grows_iff)
  next
    case (fallback c)
    let ?s2 = "s\<lparr>pool := [], pings := pings s + 1, trace := trace s @ [Get c, Ping c, Close c]\<rparr>"
    have "grows pool_event ?s2 (snd (create_conn d cfg 3 ?s2))"
      unfolding create_conn_def by (rule create_conn_loop_grows)
    then have "grows pool_event s (snd (create_conn d cfg 3 ?s2))"
      by (rule grows_append[where es = "[Get c, Ping c, Close c]"]) simp_all
    then show ?thesis using fallback by (simp add: get_conn_fallback)
  next
    case (advance c rest)
    let ?s2 = "s\<lparr>pool := rest, pings := pings s + 1, trace := trace s @ [Get c, Ping c, Close c]\<rparr>"
    have "grows pool_event ?s2 (snd (get_conn d cfg ?s2))"
      using "1.IH"[OF advance(1) refl advance(3) refl] advance(2) by (simp add: log_def)
    then have "grows pool_event s (snd (get_conn d cfg ?s2))"
      by (rule grows_append[where es = "[Get c, Ping c, Close c]"]) simp_all
    then show ?thesis using advance by (simp add: get_conn_next)
  qed
qed

lemma get_conn_raises:
  "get_conn d cfg s = (Raised e, s') \<Longrightarrow> \<not> is_MySQLError e"
proof (induction d cfg s rule: get_conn.induct)
  case (1 d cfg s)
  show ?case
  proof (cases rule: get_conn_cases[where d=d and s=s])
    case empty
    then show ?thesis using "1.prems" by (simp add: get_conn_empty)
  next
    case (live c rest)
    then show ?thesis using "1.prems" by (simp add: get_conn_live)
  next
    case (fallback c)
    then show ?thesis using "1.prems" create_conn_loop_raises
      by (simp add: get_conn_fallback create_conn_def)
  next
    case (advance c rest)
    then show ?thesis
      using "1.IH"[OF advance(1) refl advance(3) refl] "1.prems" by (simp add: get_conn_next log_def)
  qed
qed

subsection \<open>Reading the new events\<close>

lemma new_events_eq: "trace s' = trace s @ es \<Longrightarrow> new_events s s' = es"
  by (simp add: new_events_def)

lemma list_all_True [simp]: "list_all (\<lambda>e. True) es"
  by (simp add: list_all_iff)

lemma new_events_trans:
  "grows P s s1 \<Longrightarrow> grows Q s1 s2 \<Longrightarrow> new_events s s2 = new_events s s1 @ new_events s1 s2"
  by (auto simp: grows_iff new_events_def)

lemma operational_is_mysql: "is_OperationalError e \<Longrightarrow> is_MySQLError e"
  by (cases e) simp_all





lemma balanced_pool: "list_all pool_event es \<Longrightarrow> balanced h (es @ ys) = balanced h ys"
  by (induction h es rule: balanced.induct) simp_all

lemma balanced_append: "balanced h xs \<Longrightarrow> balanced None ys \<Longrightarrow> balanced h (xs @ ys)"
  by (induction h xs rule: balanced.induct) simp_all

subsection \<open>One iteration of the loop of execute\<close>

text \<open>The trace the \<^verbatim>\<open>finally\<close> block leaves, and the five ways an iteration can go.\<close>

lemma trace_finally_held:
  "trace (finally_block cfg (Some c) delay s) =
     trace s @ [Release c,
                if 0 < pool_size cfg \<and> pool_size cfg \<le> int (length (pool s)) then Close c else Put c,
                Sleep_execute delay]"
  by (simp add: finally_block_def release_conn_def log_def)

lemma trace_finally_none:
  "trace (finally_block cfg None delay s) = trace s @ [Sleep_execute delay]"
  by (simp add: finally_block_def log_def)

lemma attempt_blocked:
  "get_conn d cfg s = (Blocked, s1) \<Longrightarrow>
   attempt d cfg q ps fetch lastrowid delay s = (Done Blocked, s1)"
  by (simp add: attempt_def)

lemma attempt_raised:
  "get_conn d cfg s = (Raised e, s1) \<Longrightarrow>
   attempt d cfg q ps fetch lastrowid delay s = (Done (Raised e), finally_block cfg None delay s1)"
  using get_conn_raises[of d cfg s e s1] operational_is_mysql[of e]
  by (auto simp add: attempt_def handler_def)

lemma attempt_no_conn:
  "get_conn d cfg s = (Returned None, s1) \<Longrightarrow>
   attempt d cfg q ps fetch lastrowid delay s =
     (Done (Raised (OtherException ''AttributeError'')), finally_block cfg None delay s1)"
  by (simp add: attempt_def handler_def)

lemma attempt_issued:
  "get_conn d cfg s = (Returned (Some c), s1) \<Longrightarrow> issue_result d (issues s1) c = Issued rows rowid \<Longrightarrow>
   attempt d cfg q ps fetch lastrowid delay s =
     (Done (Returned (if fetch then rows else if lastrowid then rowid else PyBool True)),
      finally_block cfg (Some c) delay
        (s1\<lparr>issues := issues s1 + 1, trace := trace s1 @ [Acquire c, Run c q ps]\<rparr>))"
  by (simp add: attempt_def)

lemma attempt_issue_raised:
  "get_conn d cfg s = (Returned (Some c), s1) \<Longrightarrow> issue_result d (issues s1) c = Issue_raise e \<Longrightarrow>
   attempt d cfg q ps fetch lastrowid delay s =
     (if is_OperationalError e then Again else Done (Raised e),
      finally_block cfg (Some c) delay
        (s1\<lparr>issues := issues s1 + 1, trace := trace s1 @ [Acquire c, Run c q ps]\<rparr>))"
  by (simp add: attempt_def handler_def)

lemma attempt_cases:
  obtains (blocked) s1 where "get_conn d cfg s = (Blocked, s1)"
  | (raised) e s1 where "get_conn d cfg s = (Raised e, s1)"
  | (no_conn) s1 where "get_conn d cfg s = (Returned None, s1)"
  | (issued) c s1 rows rowid where "get_conn d cfg s = (Returned (Some c), s1)"
      "issue_result d (issues s1) c = Issued rows rowid"
  | (issue_raised) c s1 e where "get_conn d cfg s = (Returned (Some c), s1)"
      "issue_result d (issues s1) c = Issue_raise e"
proof (cases "get_conn d cfg s")
  case (Pair r s1)
  show ?thesis
  proof (cases r)
    case (Returned co)
    show ?thesis
    proof (cases co)
      case None
      with Pair Returned show ?thesis using no_conn by simp
    next
      case (Some c)
      with Pair Returned show ?thesis using issued issue_raised
        by (cases "issue_result d (issues s1) c") auto
    qed
  next
    case (Raised e)
    with Pair show ?thesis using raised by simp
  next
    case Blocked
    with Pair show ?thesis using blocked by simp
  qed
qed

text \<open>What one iteration adds to the trace.\<close>

lemma attempt_events:
  "(case get_conn d cfg s of
      (Returned (Some c), s1) \<Rightarrow>
        new_events s (snd (attempt d cfg q ps fetch lastrowid delay s)) =
          new_events s s1 @
          [Acquire c, Run c q ps, Release c,
           if 0 < pool_size cfg \<and> pool_size cfg \<le> int (length (pool s1)) then Close c else Put c,
           Sleep_execute delay]
    | (Blocked, s1) \<Rightarrow> new_events s (snd (attempt d cfg q ps fetch lastrowid delay s)) = new_events s s1
    | (r, s1) \<Rightarrow>
        new_events s (snd (attempt d cfg q ps fetch lastrowid delay s)) =
          new_events s s1 @ [Sleep_execute delay])
   \<and> grows (\<lambda>e. True) s (snd (attempt d cfg q ps fetch lastrowid delay s))"
proof -
  obtain es where es: "trace (snd (get_conn d cfg s)) = trace s @ es"
    using get_conn_grows[of s d cfg] by (auto simp: grows_iff)
  show ?thesis
  proof (cases rule: attempt_cases[where d=d and cfg=cfg and s=s])
    case (blocked s1)
    with es show ?thesis
      by (simp add: attempt_blocked new_events_eq grows_iff)
  next
    case (raised e s1)
    with es show ?thesis
      by (simp add: attempt_raised new_events_eq trace_finally_none grows_iff)
  next
    case (no_conn s1)
    with es show ?thesis
      by (simp add: attempt_no_conn new_events_eq trace_finally_none grows_iff)
  next
    case (issued c s1 rows rowid)
    with es show ?thesis
      by (simp add: attempt_issued new_events_eq trace_finally_held grows_iff)
  next
    case (issue_raised c s1 e)
    with es show ?thesis
      by (simp add: attempt_issue_raised new_events_eq trace_finally_held grows_iff)
  qed
qed

subsection \<open>The loop of execute\<close>

lemma execute_loop_exhausted:
  "retries \<le> 0 \<Longrightarrow>
   execute_loop d cfg q ps fetch lastrowid retries delay s = (Raised (DatabaseOperationFailed q ps), s)"
  by (subst execute_loop.simps) simp

lemma execute_loop_done:
  "0 < retries \<Longrightarrow> attempt d cfg q ps fetch lastrowid delay s = (Done r, s') \<Longrightarrow>
   execute_loop d cfg q ps fetch lastrowid retries delay s = (r, s')"
  by (subst execute_loop.simps) simp

lemma execute_loop_again:
  "0 < retries \<Longrightarrow> attempt d cfg q ps fetch lastrowid delay s = (Again, s') \<Longrightarrow>
   execute_loop d cfg q ps fetch lastrowid retries delay s =
     execute_loop d cfg q ps fetch lastrowid (retries - 1) (delay * retry_backoff_base cfg) s'"
  by (subst execute_loop.simps) simp

lemma new_events_same [simp]: "new_events s s = []"
  by (simp add: new_events_def)

lemma attempt_grows: "grows (\<lambda>e. True) s (snd (attempt d cfg q ps fetch lastrowid delay s))"
  using attempt_events[where d=d and cfg=cfg and s=s and q=q and ps=ps and fetch=fetch and lastrowid=lastrowid and delay=delay] by simp

lemma get_conn_new_events: "list_all pool_event (new_events s (snd (get_conn d cfg s)))"
  using get_conn_grows by (rule grows_all)

lemma balanced_pool_only: "list_all pool_event es \<Longrightarrow> balanced h es = (h = None)"
  using balanced_pool[where es=es and h=h and ys="[]"] by simp

lemma attempt_balanced:
  "balanced None (new_events s (snd (attempt d cfg q ps fetch lastrowid delay s)))"
  using attempt_events[where d=d and cfg=cfg and s=s and q=q and ps=ps and fetch=fetch and lastrowid=lastrowid and delay=delay] get_conn_new_events[where d=d and cfg=cfg and s=s]
  by (auto simp: balanced_pool balanced_pool_only split: prod.splits outcome.splits option.splits)

lemma execute_loop_balanced:
  "grows (\<lambda>e. True) s (snd (execute_loop d cfg q ps fetch lastrowid retries delay s)) \<and>
   balanced None (new_events s (snd (execute_loop d cfg q ps fetch lastrowid retries delay s)))"
proof (induction d cfg q ps fetch lastrowid retries delay s rule: execute_loop.induct)
  case (1 d cfg q ps fetch lastrowid retries delay s)
  show ?case
  proof (cases "0 < retries")
    case False
    then show ?thesis by (simp add: execute_loop_exhausted)
  next
    case pos: True
    obtain st s1 where a: "attempt d cfg q ps fetch lastrowid delay s = (st, s1)"
      by (cases "attempt d cfg q ps fetch lastrowid delay s")
    have g1: "grows (\<lambda>e. True) s s1" and b1: "balanced None (new_events s s1)"
      using attempt_grows[where d=d and cfg=cfg and s=s and q=q and ps=ps and fetch=fetch and lastrowid=lastrowid and delay=delay]
        attempt_balanced[where d=d and cfg=cfg and s=s and q=q and ps=ps and fetch=fetch and lastrowid=lastrowid and delay=delay] a by simp_all
    show ?thesis
    proof (cases st)
      case (Done r)
      with pos a g1 b1 show ?thesis by (simp add: execute_loop_done)
    next
      case Again
      let ?s' = "snd (execute_loop d cfg q ps fetch lastrowid (retries - 1)
                        (delay * retry_backoff_base cfg) s1)"
      have ih: "grows (\<lambda>e. True) s1 ?s'" "balanced None (new_events s1 ?s')"
        using "1.IH"[OF pos a[symmetric, unfolded Again] ] Again by simp_all
      have "grows (\<lambda>e. True) s ?s'"
        using g1 ih(1) by (rule grows_trans)
      moreover have "new_events s ?s' = new_events s s1 @ new_events s1 ?s'"
        using g1 ih(1) by (rule new_events_trans)
      ultimately show ?thesis
        using pos a Again b1 ih(2) by (simp add: execute_loop_again balanced_append)
    qed
  qed
qed




subsection \<open>The factory after failed attempts\<close>


lemma create_conn_pool: "pool (snd (create_conn d cfg retries s)) = pool s"
  by (simp add: create_conn_def create_conn_loop_pool)

subsection \<open>Chunks and the loop of batch_insert\<close>

lemma chunks_Nil [simp]: "chunks n [] = []"
  by (subst chunks.simps) simp

lemma chunks_zero [simp]: "chunks 0 xs = []"
  by (subst chunks.simps) simp

lemma chunks_step: "0 < n \<Longrightarrow> xs \<noteq> [] \<Longrightarrow> chunks n xs = take n xs # chunks n (drop n xs)"
  by (subst chunks.simps) simp

lemma concat_chunks: "0 < n \<Longrightarrow> concat (chunks n xs) = xs"
proof (induction n xs rule: chunks.induct)
  case (1 n xs)
  then show ?case by (cases "xs = []") (simp_all add: chunks_step)
qed

lemma chunks_sizes: "list_all (\<lambda>ch. ch \<noteq> [] \<and> length ch \<le> n) (chunks n xs)"
proof (induction n xs rule: chunks.induct)
  case (1 n xs)
  then show ?case by (cases "n = 0 \<or> xs = []") (auto simp add: chunks_step)
qed

lemma chunks_full: "list_all (\<lambda>ch. length ch = n) (butlast (chunks n xs))"
proof (induction n xs rule: chunks.induct)
  case (1 n xs)
  show ?case
  proof (cases "n = 0 \<or> xs = []")
    case True
    then show ?thesis by auto
  next
    case False
    then have step: "chunks n xs = take n xs # chunks n (drop n xs)" by (simp add: chunks_step)
    show ?thesis
    proof (cases "length xs \<le> n")
      case True
      then show ?thesis using step by simp
    next
      case long: False
      then have "chunks n (drop n xs) \<noteq> []"
        using False by (subst chunks.simps) simp
      with 1 False long show ?thesis by (simp add: step)
    qed
  qed
qed

lemma batch_insert_loop_stop:
  "0 < batch_size \<Longrightarrow> int (length data_list) \<le> i \<Longrightarrow>
   batch_insert_loop d cfg q data_list batch_size i s = (Returned PyNone, s)"
  by (subst batch_insert_loop.simps) simp

lemma batch_insert_loop_step:
  "0 < batch_size \<Longrightarrow> i < int (length data_list) \<Longrightarrow>
   batch_insert_loop d cfg q data_list batch_size i s =
     (case execute d cfg q (PyList (take (nat batch_size) (drop (nat i) data_list))) 3 False False s of
        (Returned r, s') \<Rightarrow> batch_insert_loop d cfg q data_list batch_size (i + batch_size) s'
      | (Raised e, s') \<Rightarrow> (Raised e, s')
      | (Blocked, s') \<Rightarrow> (Blocked, s'))"
  by (subst batch_insert_loop.simps) simp

lemma batch_insert_loop_chunks:
  "0 < batch_size \<Longrightarrow> 0 \<le> i \<Longrightarrow>
   batch_insert_loop d cfg q data_list batch_size i s =
     run_all (map (\<lambda>ch. execute d cfg q (PyList ch) 3 False False)
                (chunks (nat batch_size) (drop (nat i) data_list))) s"
proof (induction d cfg q data_list batch_size i s rule: batch_insert_loop.induct)
  case (1 d cfg q data_list batch_size i s)
  show ?case
  proof (cases "i < int (length data_list)")
    case False
    with "1.prems" show ?thesis by (simp add: batch_insert_loop_stop)
  next
    case True
    let ?ch = "take (nat batch_size) (drop (nat i) data_list)"
    have ne: "drop (nat i) data_list \<noteq> []"
      using True "1.prems" by simp
    have next_drop: "nat (i + batch_size) = nat batch_size + nat i"
      using "1.prems" by (simp add: nat_add_distrib)
    have cond: "batch_size \<noteq> 0 \<and>
         (if 0 < batch_size then i < int (length data_list) else int (length data_list) < i)"
      using True "1.prems" by simp
    have ih: "batch_insert_loop d cfg q data_list batch_size (i + batch_size) s' =
          run_all (map (\<lambda>ch. execute d cfg q (PyList ch) 3 False False)
                     (chunks (nat batch_size) (drop (nat (i + batch_size)) data_list))) s'"
      if "execute d cfg q (PyList ?ch) 3 False False s = (Returned r, s')" for r s'
      using "1.IH"[OF cond that[symmetric] refl] "1.prems" by simp
    show ?thesis
      using "1.prems" True ne ih
      by (simp add: batch_insert_loop_step chunks_step next_drop split: prod.splits outcome.splits)
  qed
qed

subsection \<open>Releases inside execute go into the queue\<close>

lemma put_back_append: "put_back p xs \<Longrightarrow> put_back None ys \<Longrightarrow> put_back p (xs @ ys)"
  by (induction p xs rule: put_back.induct) simp_all

lemma put_back_pool: "list_all pool_event es \<Longrightarrow> put_back None es"
proof (induction es)
  case Nil
  show ?case by simp
next
  case (Cons e es)
  then show ?case by (cases e) simp_all
qed

lemma get_conn_shrinks:
  "pool s \<noteq> [] \<Longrightarrow> length (pool (snd (get_conn d cfg s))) < length (pool s)"
proof (induction d cfg s rule: get_conn.induct)
  case (1 d cfg s)
  show ?case
  proof (cases rule: get_conn_cases[where d=d and s=s])
    case empty
    with "1.prems" show ?thesis by simp
  next
    case (live c rest)
    then show ?thesis by (simp add: get_conn_live)
  next
    case (fallback c)
    then show ?thesis by (simp add: get_conn_fallback create_conn_pool)
  next
    case (advance c rest)
    then show ?thesis
      using "1.IH"[OF advance(1) refl advance(3) refl] by (simp add: get_conn_next log_def)
  qed
qed

lemma get_conn_no_growth: "length (pool (snd (get_conn d cfg s))) \<le> length (pool s)"
proof (cases "pool s = []")
  case True
  then show ?thesis by (simp add: get_conn_empty)
next
  case False
  then show ?thesis using get_conn_shrinks[of s d cfg] by simp
qed

lemma get_conn_returned_shrinks:
  assumes "get_conn d cfg s = (Returned r, s1)"
  shows "length (pool s1) < length (pool s)"
proof -
  have "pool s \<noteq> []"
    using assms by (auto simp: get_conn_empty)
  from get_conn_shrinks[OF this, of d cfg] assms show ?thesis by simp
qed

lemma pool_finally_none: "pool (finally_block cfg None delay s) = pool s"
  by (simp add: finally_block_def log_def)

lemma pool_finally_held:
  "pool (finally_block cfg (Some c) delay s) =
     (if 0 < pool_size cfg \<and> pool_size cfg \<le> int (length (pool s)) then pool s else pool s @ [c])"
  by (simp add: finally_block_def release_conn_def log_def)

lemma attempt_no_growth:
  "length (pool (snd (attempt d cfg q ps fetch lastrowid delay s))) \<le> length (pool s)"
proof (cases rule: attempt_cases[where d=d and cfg=cfg and s=s])
  case (blocked s1)
  then show ?thesis
    using get_conn_no_growth[of d cfg s] by (simp add: attempt_blocked)
next
  case (raised e s1)
  then show ?thesis
    using get_conn_no_growth[of d cfg s] by (simp add: attempt_raised pool_finally_none)
next
  case (no_conn s1)
  then show ?thesis
    using get_conn_no_growth[of d cfg s] by (simp add: attempt_no_conn pool_finally_none)
next
  case (issued c s1 rows rowid)
  then show ?thesis
    using get_conn_returned_shrinks[OF issued(1)]
    by (simp add: attempt_issued pool_finally_held)
next
  case (issue_raised c s1 e)
  then show ?thesis
    using get_conn_returned_shrinks[OF issue_raised(1)]
    by (simp add: attempt_issue_raised pool_finally_held)
qed

lemma attempt_within_capacity:
  "within_capacity cfg s \<Longrightarrow>
   within_capacity cfg (snd (attempt d cfg q ps fetch lastrowid delay s))"
  using attempt_no_growth[of d cfg q ps fetch lastrowid delay s]
  by (auto simp: within_capacity_def)

lemma attempt_put_back:
  assumes "within_capacity cfg s"
  shows "put_back None (new_events s (snd (attempt d cfg q ps fetch lastrowid delay s)))"
proof -
  note ev = attempt_events[where d=d and cfg=cfg and s=s and q=q and ps=ps and fetch=fetch
      and lastrowid=lastrowid and delay=delay]
  note pe = get_conn_new_events[where d=d and cfg=cfg and s=s]
  show ?thesis
  proof (cases rule: attempt_cases[where d=d and cfg=cfg and s=s])
    case (blocked s1)
    with ev pe show ?thesis by (simp add: put_back_pool)
  next
    case (raised e s1)
    with ev pe show ?thesis by (simp add: put_back_pool put_back_append)
  next
    case (no_conn s1)
    with ev pe show ?thesis by (simp add: put_back_pool put_back_append)
  next
    case (issued c s1 rows rowid)
    have room: "\<not> (0 < pool_size cfg \<and> pool_size cfg \<le> int (length (pool s1)))"
      using get_conn_returned_shrinks[OF issued(1)] assms by (auto simp: within_capacity_def)
    with issued ev pe show ?thesis by (simp add: put_back_pool put_back_append)
  next
    case (issue_raised c s1 e)
    have room: "\<not> (0 < pool_size cfg \<and> pool_size cfg \<le> int (length (pool s1)))"
      using get_conn_returned_shrinks[OF issue_raised(1)] assms by (auto simp: within_capacity_def)
    with issue_raised ev pe show ?thesis by (simp add: put_back_pool put_back_append)
  qed
qed

lemma execute_loop_put_back:
  "within_capacity cfg s \<Longrightarrow>
   put_back None (new_events s (snd (execute_loop d cfg q ps fetch lastrowid retries delay s)))"
proof (induction d cfg q ps fetch lastrowid retries delay s rule: execute_loop.induct)
  case (1 d cfg q ps fetch lastrowid retries delay s)
  show ?case
  proof (cases "0 < retries")
    case False
    then show ?thesis by (simp add: execute_loop_exhausted)
  next
    case pos: True
    obtain st s1 where a: "attempt d cfg q ps fetch lastrowid delay s = (st, s1)"
      by (cases "attempt d cfg q ps fetch lastrowid delay s")
    have g1: "grows (\<lambda>e. True) s s1" and b1: "put_back None (new_events s s1)"
      and w1: "within_capacity cfg s1"
      using attempt_grows[where d=d and cfg=cfg and s=s and q=q and ps=ps and fetch=fetch
          and lastrowid=lastrowid and delay=delay]
        attempt_put_back[OF "1.prems", of d q ps fetch lastrowid delay]
        attempt_within_capacity[OF "1.prems", of d q ps fetch lastrowid delay] a by simp_all
    show ?thesis
    proof (cases st)
      case (Done r)
      with pos a b1 show ?thesis by (simp add: execute_loop_done)
    next
      case Again
      let ?s' = "snd (execute_loop d cfg q ps fetch lastrowid (retries - 1)
                        (delay * retry_backoff_base cfg) s1)"
      have ih: "put_back None (new_events s1 ?s')"
        using "1.IH"[OF pos a[symmetric] Again w1] by simp
      have g2: "grows (\<lambda>e. True) s1 ?s'"
        using execute_loop_balanced by blast
      have "new_events s ?s' = new_events s s1 @ new_events s1 ?s'"
        using g1 g2 by (rule new_events_trans)
      then show ?thesis
        using pos a Again b1 ih by (simp add: execute_loop_again put_back_append)
    qed
  qed
qed

subsection \<open>A driver that loses every statement\<close>

text \<open>
  On a non-empty queue within its capacity, with every probe answered and every statement
  ending in an \<^verbatim>\<open>OperationalError\<close>, every iteration of the loop of \<^verbatim>\<open>execute\<close>
  takes the connection at the head of the queue, fails, and puts it back at the end.
\<close>

lemma attempt_dropped:
  assumes "pool s = c # rest"
    and "ping_ok d (pings s) c"
    and "issue_result d (issues s) c = Issue_raise e" and "is_OperationalError e"
    and "within_capacity cfg s"
  shows "fst (attempt d cfg q ps fetch lastrowid delay s) = Again \<and>
         pool (snd (attempt d cfg q ps fetch lastrowid delay s)) = rest @ [c] \<and>
         pings (snd (attempt d cfg q ps fetch lastrowid delay s)) = pings s + 1 \<and>
         issues (snd (attempt d cfg q ps fetch lastrowid delay s)) = issues s + 1"
proof -
  let ?s1 = "s\<lparr>pool := rest, pings := pings s + 1, trace := trace s @ [Get c, Ping c]\<rparr>"
  have g: "get_conn d cfg s = (Returned (Some c), ?s1)"
    using assms(1,2) by (rule get_conn_live)
  have i: "issue_result d (issues ?s1) c = Issue_raise e"
    using assms(3) by simp
  have room: "\<not> (0 < pool_size cfg \<and> pool_size cfg \<le> int (length rest))"
    using assms(1,5) by (auto simp: within_capacity_def)
  show ?thesis
    using assms(4) room
    by (simp add: attempt_issue_raised[OF g i] finally_block_def release_conn_def log_def)
qed

lemma dropped_statements_fail:
  assumes "pool s \<noteq> []"
    and "within_capacity cfg s"
    and "\<forall>k c. ping_ok d k c"
    and "\<forall>k c. \<exists>e. issue_result d k c = Issue_raise e \<and> is_OperationalError e"
  shows "connectivity_failures d cfg q ps fetch lastrowid n delay s"
  using assms(1,2)
proof (induction n arbitrary: delay s)
  case 0
  show ?case by simp
next
  case (Suc n)
  from Suc.prems(1) obtain c rest where p: "pool s = c # rest"
    by (cases "pool s") auto
  from assms(4) obtain e where e: "issue_result d (issues s) c = Issue_raise e" "is_OperationalError e"
    by blast
  have live: "ping_ok d (pings s) c"
    using assms(3) by simp
  obtain st s' where a: "attempt d cfg q ps fetch lastrowid delay s = (st, s')"
    by (cases "attempt d cfg q ps fetch lastrowid delay s")
  from attempt_dropped[OF p live e Suc.prems(2), of q ps fetch lastrowid delay] a
  have st: "st = Again" and p': "pool s' = rest @ [c]"
    by simp_all
  have "connectivity_failures d cfg q ps fetch lastrowid n (delay * retry_backoff_base cfg) s'"
    using p p' Suc.prems(2) by (intro Suc.IH) (auto simp: within_capacity_def)
  with a st show ?case by simp
qed

subsection \<open>get_conn on a queue with broken connections\<close>

text \<open>
  \<^verbatim>\<open>get_conn\<close> closes the broken connections at the head of the queue and returns the
  first connection whose probe succeeds; when no queued connection answers, it empties the
  queue and calls \<^verbatim>\<open>create_conn\<close>.
\<close>

lemma get_conn_first_live:
  assumes "pool s = xs @ c # rest"
    and "\<forall>i<length xs. \<not> ping_ok d (pings s + i) (xs ! i)"
    and "ping_ok d (pings s + length xs) c"
  shows "get_conn d cfg s =
           (Returned (Some c),
            s\<lparr>pool := rest, pings := pings s + length xs + 1,
               trace := trace s @ concat (map (\<lambda>x. [Get x, Ping x, Close x]) xs) @ [Get c, Ping c]\<rparr>)"
  using assms
proof (induction xs arbitrary: s)
  case Nil
  then show ?case by (simp add: get_conn_live)
next
  case (Cons x xs)
  let ?s2 = "s\<lparr>pool := xs @ c # rest, pings := pings s + 1, trace := trace s @ [Get x, Ping x, Close x]\<rparr>"
  have broken: "\<not> ping_ok d (pings s) x"
    using Cons.prems(2) by force
  have "get_conn d cfg s = get_conn d cfg ?s2"
    using Cons.prems(1) broken by (intro get_conn_next) simp_all
  also have "\<dots> = (Returned (Some c),
            ?s2\<lparr>pool := rest, pings := pings ?s2 + length xs + 1,
               trace := trace ?s2 @ concat (map (\<lambda>x. [Get x, Ping x, Close x]) xs) @ [Get c, Ping c]\<rparr>)"
  proof (rule Cons.IH)
    show "pool ?s2 = xs @ c # rest" by simp
    show "\<forall>i<length xs. \<not> ping_ok d (pings ?s2 + i) (xs ! i)"
      using Cons.prems(2) by (auto dest: spec[where x = "Suc i" for i])
    show "ping_ok d (pings ?s2 + length xs) c"
      using Cons.prems(3) by simp
  qed
  finally show ?case by simp
qed

lemma get_conn_all_broken:
  assumes "pool s = xs" and "xs \<noteq> []"
    and "\<forall>i<length xs. \<not> ping_ok d (pings s + i) (xs ! i)"
  shows "get_conn d cfg s =
           create_conn d cfg 3
             (s\<lparr>pool := [], pings := pings s + length xs,
                trace := trace s @ concat (map (\<lambda>x. [Get x, Ping x, Close x]) xs)\<rparr>)"
  using assms
proof (induction xs arbitrary: s)
  case Nil
  then show ?case by simp
next
  case (Cons x xs)
  have broken: "\<not> ping_ok d (pings s) x"
    using Cons.prems(3) by force
  show ?case
  proof (cases "xs = []")
    case True
    with Cons.prems(1) broken show ?thesis by (simp add: get_conn_fallback)
  next
    case False
    let ?s2 = "s\<lparr>pool := xs, pings := pings s + 1, trace := trace s @ [Get x, Ping x, Close x]\<rparr>"
    have "get_conn d cfg s = get_conn d cfg ?s2"
      using Cons.prems(1) broken False by (intro get_conn_next) simp_all
    also have "\<dots> = create_conn d cfg 3
             (?s2\<lparr>pool := [], pings := pings ?s2 + length xs,
                trace := trace ?s2 @ concat (map (\<lambda>x. [Get x, Ping x, Close x]) xs)\<rparr>)"
    proof (rule Cons.IH)
      show "pool ?s2 = xs" by simp
      show "xs \<noteq> []" by (rule False)
      show "\<forall>i<length xs. \<not> ping_ok d (pings ?s2 + i) (xs ! i)"
        using Cons.prems(3) by (auto dest: spec[where x = "Suc i" for i])
    qed
    finally show ?thesis by simp
  qed
qed

section \<open>The claims\<close>

subsection \<open>execute: retries on connectivity failures\<close>




subsection \<open>execute: a query failure is not retried\<close>




subsection \<open>execute: every attempt releases its connection once\<close>

text \<open>
  Claim C3. In every call of \<^verbatim>\<open>execute\<close>, whatever the driver does and however the call
  ends, the events the call adds to the trace are balanced: \<^verbatim>\<open>execute\<close> acquires a
  connection only while it holds none, each \<^verbatim>\<open>release_conn(c)\<close> is for the connection
  \<open>c\<close> it holds, and it holds none at the end. So each attempt that acquired a connection
  releases it exactly once, and an attempt that acquired none releases nothing. When the
  queue is within its capacity at the start of the call, each of these releases stores the
  connection in the queue.
\<close>

theorem execute_releases_balanced:
  "balanced None (new_events s (snd (execute d cfg q ps retries fetch lastrowid s))) \<and>
   (within_capacity cfg s \<longrightarrow>
      put_back None (new_events s (snd (execute d cfg q ps retries fetch lastrowid s))))"
  unfolding execute_def using execute_loop_balanced execute_loop_put_back by blast

text \<open>
  The theorem on three failing attempts on a pool of one connection; the events of two
  such attempts are spelled out.
\<close>

theorem execute_releases_balanced_witness:
  "within_capacity demo_config demo_world \<and>
   balanced None (new_events demo_world
      (snd (execute dropping_driver demo_config ''SELECT 1'' PyNone 3 False False demo_world))) \<and>
   put_back None (new_events demo_world
      (snd (execute dropping_driver demo_config ''SELECT 1'' PyNone 3 False False demo_world))) \<and>
   new_events demo_world
      (snd (execute dropping_driver demo_config ''SELECT 1'' PyNone 2 False False demo_world)) =
     [Get 0, Ping 0, Acquire 0, Run 0 ''SELECT 1'' PyNone, Release 0, Put 0, Sleep_execute (3 / 2),
      Get 0, Ping 0, Acquire 0, Run 0 ''SELECT 1'' PyNone, Release 0, Put 0, Sleep_execute (9 / 4)]"
proof -
  have w: "within_capacity demo_config demo_world"
    by (simp add: within_capacity_def demo_config_def demo_world_def)
  have e: "new_events demo_world
      (snd (execute dropping_driver demo_config ''SELECT 1'' PyNone 2 False False demo_world)) =
     [Get 0, Ping 0, Acquire 0, Run 0 ''SELECT 1'' PyNone, Release 0, Put 0, Sleep_execute (3 / 2),
      Get 0, Ping 0, Acquire 0, Run 0 ''SELECT 1'' PyNone, Release 0, Put 0, Sleep_execute (9 / 4)]"
    by code_simp
  show ?thesis
    using w e execute_releases_balanced[of demo_world dropping_driver demo_config "''SELECT 1''" PyNone 3 False False]
    by blast
qed

subsection \<open>execute: a successful call sleeps once\<close>



subsection \<open>execute and create_conn: no retry budget\<close>

text \<open>
  Claim C9. With \<open>retries \<le> 0\<close> the loop of \<^verbatim>\<open>execute\<close> is not entered: the call
  raises \<^verbatim>\<open>DatabaseOperationFailed\<close> with the sql and params and leaves the state as it
  was, so no connection is taken from the pool, no statement is issued and nothing sleeps.
\<close>

theorem execute_no_budget:
  "retries \<le> 0 \<Longrightarrow>
   execute d cfg q ps retries fetch lastrowid s = (Raised (DatabaseOperationFailed q ps), s)"
  by (simp add: execute_def execute_loop_exhausted)

theorem execute_no_budget_witness:
  "(0::int) \<le> 0 \<and>
   execute healthy_driver demo_config ''SELECT 1'' PyNone 0 False False demo_world =
     (Raised (DatabaseOperationFailed ''SELECT 1'' PyNone), demo_world)"
  using execute_no_budget[of 0 healthy_driver demo_config "''SELECT 1''" PyNone False False demo_world]
  by simp

text \<open>
  Claim C10. With \<open>retries \<le> 0\<close> the loop of \<^verbatim>\<open>create_conn\<close> is not entered: the call
  returns \<^verbatim>\<open>None\<close>, raises nothing and leaves the state as it was.
\<close>

theorem create_conn_no_budget:
  "retries \<le> 0 \<Longrightarrow> create_conn d cfg retries s = (Returned None, s)"
  by (simp add: create_conn_def create_conn_loop_none)

theorem create_conn_no_budget_witness:
  "(-1::int) \<le> 0 \<and> create_conn healthy_driver demo_config (-1) demo_world = (Returned None, demo_world)"
  using create_conn_no_budget[of "-1" healthy_driver demo_config demo_world]
  by simp

subsection \<open>create_conn: retries, then DatabaseConnectionError\<close>



subsection \<open>get_conn: a failed probe\<close>

text \<open>
  Claim C4, as amended. Let the probe of the connection \<open>c\<close> at the head of the queue
  fail. If nothing else is queued, \<^verbatim>\<open>get_conn\<close> closes \<open>c\<close> and its outcome is the
  outcome of \<^verbatim>\<open>create_conn()\<close>: the fresh connection is returned and not enqueued, and
  the queue is empty afterwards. If another connection is queued, the factory is not
  invoked at that point: \<^verbatim>\<open>get_conn\<close> closes \<open>c\<close> and goes on with the rest of the
  queue in the same way, so the next connection is returned when its probe succeeds (and
  then no connection attempt was made).
\<close>

theorem get_conn_probe_failed:
  assumes "pool s = c # rest" and "\<not> ping_ok d (pings s) c"
  shows "(rest = [] \<longrightarrow>
            get_conn d cfg s =
              create_conn d cfg 3
                (s\<lparr>pool := [], pings := pings s + 1, trace := trace s @ [Get c, Ping c, Close c]\<rparr>) \<and>
            pool (snd (get_conn d cfg s)) = []) \<and>
         (rest \<noteq> [] \<longrightarrow>
            get_conn d cfg s =
              get_conn d cfg
                (s\<lparr>pool := rest, pings := pings s + 1, trace := trace s @ [Get c, Ping c, Close c]\<rparr>)) \<and>
         (rest \<noteq> [] \<and> ping_ok d (pings s + 1) (hd rest) \<longrightarrow>
            get_conn d cfg s =
              (Returned (Some (hd rest)),
               s\<lparr>pool := tl rest, pings := pings s + 2,
                  trace := trace s @ [Get c, Ping c, Close c, Get (hd rest), Ping (hd rest)]\<rparr>))"
proof (intro conjI impI)
  assume "rest = []"
  with assms have eq: "get_conn d cfg s =
      create_conn d cfg 3
        (s\<lparr>pool := [], pings := pings s + 1, trace := trace s @ [Get c, Ping c, Close c]\<rparr>)"
    by (simp add: get_conn_fallback)
  then show "get_conn d cfg s =
      create_conn d cfg 3
        (s\<lparr>pool := [], pings := pings s + 1, trace := trace s @ [Get c, Ping c, Close c]\<rparr>)" .
  show "pool (snd (get_conn d cfg s)) = []"
    unfolding eq by (simp add: create_conn_pool)
next
  assume "rest \<noteq> []"
  with assms show "get_conn d cfg s =
      get_conn d cfg
        (s\<lparr>pool := rest, pings := pings s + 1, trace := trace s @ [Get c, Ping c, Close c]\<rparr>)"
    by (simp add: get_conn_next)
next
  assume h: "rest \<noteq> [] \<and> ping_ok d (pings s + 1) (hd rest)"
  then obtain c' rest' where r: "rest = c' # rest'" by (cases rest) auto
  let ?s2 = "s\<lparr>pool := rest, pings := pings s + 1, trace := trace s @ [Get c, Ping c, Close c]\<rparr>"
  have "get_conn d cfg s = get_conn d cfg ?s2"
    using assms h by (simp add: get_conn_next)
  also have "\<dots> = (Returned (Some c'),
      ?s2\<lparr>pool := rest', pings := pings ?s2 + 1, trace := trace ?s2 @ [Get c', Ping c']\<rparr>)"
    using h r by (intro get_conn_live) simp_all
  finally show "get_conn d cfg s =
      (Returned (Some (hd rest)),
       s\<lparr>pool := tl rest, pings := pings s + 2,
          trace := trace s @ [Get c, Ping c, Close c, Get (hd rest), Ping (hd rest)]\<rparr>)"
    using r by simp
qed

text \<open>
  The theorem on a queue holding one broken connection, and on a queue of two whose first
  connection is stale.
\<close>

theorem get_conn_probe_failed_witness:
  "pool demo_world = [0] \<and> \<not> ping_ok broken_driver (pings demo_world) 0 \<and>
   get_conn broken_driver demo_config demo_world =
     create_conn broken_driver demo_config 3
       (demo_world\<lparr>pool := [], pings := 1, trace := [Get 0, Ping 0, Close 0]\<rparr>) \<and>
   pool (snd (get_conn broken_driver demo_config demo_world)) = [] \<and>
   pool (demo_world\<lparr>pool := [0, 1]\<rparr>) = [0, 1] \<and>
   \<not> ping_ok stale_driver (pings (demo_world\<lparr>pool := [0, 1]\<rparr>)) 0 \<and>
   ping_ok stale_driver (pings (demo_world\<lparr>pool := [0, 1]\<rparr>) + 1) 1 \<and>
   get_conn stale_driver demo_config (demo_world\<lparr>pool := [0, 1]\<rparr>) =
     (Returned (Some 1),
      demo_world\<lparr>pool := [], pings := 2, trace := [Get 0, Ping 0, Close 0, Get 1, Ping 1]\<rparr>)"
proof -
  let ?two = "demo_world\<lparr>pool := [0, 1]\<rparr>"
  have p1: "pool demo_world = [0]" and b1: "\<not> ping_ok broken_driver (pings demo_world) 0"
    by (simp_all add: demo_world_def broken_driver_def healthy_driver_def)
  have p2: "pool ?two = [0, 1]"
    and b2: "\<not> ping_ok stale_driver (pings ?two) 0"
    and l2: "ping_ok stale_driver (pings ?two + 1) 1"
    by (simp_all add: demo_world_def stale_driver_def healthy_driver_def)
  have s1: "demo_world\<lparr>pool := [], pings := pings demo_world + 1,
                       trace := trace demo_world @ [Get 0, Ping 0, Close 0]\<rparr> =
            demo_world\<lparr>pool := [], pings := 1, trace := [Get 0, Ping 0, Close 0]\<rparr>"
    by (simp add: demo_world_def)
  have s2: "?two\<lparr>pool := tl [1], pings := pings ?two + 2,
                 trace := trace ?two @ [Get 0, Ping 0, Close 0, Get (hd [1]), Ping (hd [1])]\<rparr> =
            demo_world\<lparr>pool := [], pings := 2, trace := [Get 0, Ping 0, Close 0, Get 1, Ping 1]\<rparr>"
    by (simp add: demo_world_def)
  have only: "get_conn broken_driver demo_config demo_world =
        create_conn broken_driver demo_config 3
          (demo_world\<lparr>pool := [], pings := 1, trace := [Get 0, Ping 0, Close 0]\<rparr>) \<and>
      pool (snd (get_conn broken_driver demo_config demo_world)) = []"
    using get_conn_probe_failed[OF p1 b1, of demo_config] unfolding s1 by blast
  have "[1::nat] \<noteq> [] \<and> ping_ok stale_driver (pings ?two + 1) (hd [1])"
    using l2 by simp
  then have other: "get_conn stale_driver demo_config ?two =
      (Returned (Some (hd [1::nat])),
       demo_world\<lparr>pool := [], pings := 2, trace := [Get 0, Ping 0, Close 0, Get 1, Ping 1]\<rparr>)"
    using get_conn_probe_failed[OF p2 b2, of demo_config] unfolding s2 by blast
  from p1 b1 p2 b2 l2 only other show ?thesis by (simp add: create_conn_pool)
qed

text \<open>
  Claim C4 as stated fails when the other queued connection is broken too: with two
  broken connections queued, the probe of the first fails while the second is still
  queued, and yet the factory is invoked and the connection returned is the fresh one (100),
  not a queued one.
\<close>

theorem get_conn_all_broken_counterexample:
  "get_conn broken_driver demo_config (demo_world\<lparr>pool := [0, 1]\<rparr>) =
     (Returned (Some 100),
      demo_world\<lparr>pool := [], connects := 1, pings := 2,
         trace := [Get 0, Ping 0, Close 0, Get 1, Ping 1, Close 1, Connect]\<rparr>)"
  by code_simp

subsection \<open>release_conn: the queue stays within pool_size\<close>

text \<open>
  Claim C6, as amended. For a positive \<open>pool_size\<close> and a queue holding at most
  \<open>pool_size\<close> connections: \<^verbatim>\<open>release_conn\<close> stores the connection in the queue when
  fewer than \<open>pool_size\<close> are queued and closes it when \<open>pool_size\<close> are queued, and the
  queue holds at most \<open>pool_size\<close> connections afterwards. The call never waits:
  \<open>release_conn\<close> always yields a state.
\<close>

theorem release_conn_bounded:
  assumes "0 < pool_size cfg" and "int (length (pool s)) \<le> pool_size cfg"
  shows "(if int (length (pool s)) < pool_size cfg
          then release_conn cfg c s = s\<lparr>pool := pool s @ [c], trace := trace s @ [Put c]\<rparr>
          else release_conn cfg c s = s\<lparr>trace := trace s @ [Close c]\<rparr>) \<and>
         int (length (pool (release_conn cfg c s))) \<le> pool_size cfg"
  using assms by (simp add: release_conn_def log_def)

text \<open>The theorem on a pool of size 1, with the queue empty and with the queue full.\<close>

theorem release_conn_bounded_witness:
  "0 < pool_size demo_config \<and>
   int (length (pool (demo_world\<lparr>pool := []\<rparr>))) \<le> pool_size demo_config \<and>
   int (length (pool demo_world)) \<le> pool_size demo_config \<and>
   release_conn demo_config 7 (demo_world\<lparr>pool := []\<rparr>) = demo_world\<lparr>pool := [7], trace := [Put 7]\<rparr> \<and>
   release_conn demo_config 7 demo_world = demo_world\<lparr>trace := [Close 7]\<rparr>"
proof -
  have z: "0 < pool_size demo_config" by (simp add: demo_config_def)
  have a: "int (length (pool (demo_world\<lparr>pool := []\<rparr>))) \<le> pool_size demo_config"
    and b: "int (length (pool demo_world)) \<le> pool_size demo_config"
    by (simp_all add: demo_config_def demo_world_def)
  show ?thesis
    using z a b release_conn_bounded[OF z a, of 7] release_conn_bounded[OF z b, of 7]
    by (simp add: demo_config_def demo_world_def)
qed

text \<open>
  Claim C6 as stated fails for \<open>pool_size = 0\<close>, where the queue is unbounded: with
  \<open>pool_size\<close> (that is, 0) connections queued the released connection is stored, not
  closed, and the queue then holds more than \<open>pool_size\<close> connections.
\<close>

theorem release_conn_unbounded_counterexample:
  "release_conn (demo_config\<lparr>pool_size := 0\<rparr>) 7 (demo_world\<lparr>pool := []\<rparr>) =
     demo_world\<lparr>pool := [7], trace := [Put 7]\<rparr> \<and>
   int (length (pool (demo_world\<lparr>pool := []\<rparr>))) = pool_size (demo_config\<lparr>pool_size := 0\<rparr>) \<and>
   pool_size (demo_config\<lparr>pool_size := 0\<rparr>) <
     int (length (pool (release_conn (demo_config\<lparr>pool_size := 0\<rparr>) 7 (demo_world\<lparr>pool := []\<rparr>))))"
  by code_simp

subsection \<open>batch_insert: one call per chunk\<close>

text \<open>
  Claim C7, as amended. For a positive \<open>batch_size\<close>, \<^verbatim>\<open>batch_insert\<close> is the sequence
  of calls \<^verbatim>\<open>execute(sql_base, params=chunk)\<close>, one per chunk of the records and in
  order, which stops at the first call that does not return. The chunks are contiguous
  (their concatenation is the record list), none is empty or longer than \<open>batch_size\<close>, and
  all but the last hold exactly \<open>batch_size\<close> records; 5 records with \<open>batch_size = 2\<close>
  give chunks of sizes 2, 2 and 1.
\<close>

theorem batch_insert_chunks:
  assumes "0 < batch_size"
  shows "batch_insert d cfg table_name columns data_list batch_size s =
           run_all (map (\<lambda>ch. execute d cfg (insert_sql table_name columns) (PyList ch) 3 False False)
                      (chunks (nat batch_size) data_list)) s \<and>
         concat (chunks (nat batch_size) data_list) = data_list \<and>
         list_all (\<lambda>ch. ch \<noteq> [] \<and> length ch \<le> nat batch_size) (chunks (nat batch_size) data_list) \<and>
         list_all (\<lambda>ch. length ch = nat batch_size) (butlast (chunks (nat batch_size) data_list)) \<and>
         (batch_size = 2 \<and> length data_list = 5 \<longrightarrow>
            map length (chunks (nat batch_size) data_list) = [2, 2, 1])"
proof -
  have five: "map length (chunks 2 data_list) = [2, 2, 1]" if "length data_list = 5"
  proof -
    from that obtain a b c d e where "data_list = [a, b, c, d, e]"
      by (auto simp: eval_nat_numeral length_Suc_conv)
    then show ?thesis by (simp add: chunks_step)
  qed
  show ?thesis
    using assms batch_insert_loop_chunks[of batch_size 0 d cfg "insert_sql table_name columns" data_list s]
    by (auto simp add: batch_insert_def concat_chunks chunks_sizes chunks_full five)
qed

text \<open>
  The theorem on five records with \<open>batch_size = 2\<close> and a driver that runs every
  statement: three statements, each carrying the rows of its chunk.
\<close>

theorem batch_insert_chunks_witness:
  "(0::int) < 2 \<and>
   batch_insert healthy_driver demo_config ''t'' [''a'', ''b''] five_records 2 demo_world =
     run_all (map (\<lambda>ch. execute healthy_driver demo_config ''INSERT INTO t (a,b) VALUES (%s, %s)''
                          (PyList ch) 3 False False)
                [[PyList [PyInt 1, PyStr ''a''], PyList [PyInt 2, PyStr ''b'']],
                 [PyList [PyInt 3, PyStr ''c''], PyList [PyInt 4, PyStr ''d'']],
                 [PyList [PyInt 5, PyStr ''e'']]]) demo_world \<and>
   map length (chunks (nat 2) five_records) = [2, 2, 1] \<and>
   timeline (new_events demo_world
      (snd (batch_insert healthy_driver demo_config ''t'' [''a'', ''b''] five_records 2 demo_world))) =
     [Statement ''INSERT INTO t (a,b) VALUES (%s, %s)''
        (PyList [PyList [PyInt 1, PyStr ''a''], PyList [PyInt 2, PyStr ''b'']]), Wait (3 / 2),
      Statement ''INSERT INTO t (a,b) VALUES (%s, %s)''
        (PyList [PyList [PyInt 3, PyStr ''c''], PyList [PyInt 4, PyStr ''d'']]), Wait (3 / 2),
      Statement ''INSERT INTO t (a,b) VALUES (%s, %s)''
        (PyList [PyList [PyInt 5, PyStr ''e'']]), Wait (3 / 2)]"
proof -
  have r: "(0::int) < 2" by simp
  have c: "chunks (nat 2) five_records =
     [[PyList [PyInt 1, PyStr ''a''], PyList [PyInt 2, PyStr ''b'']],
      [PyList [PyInt 3, PyStr ''c''], PyList [PyInt 4, PyStr ''d'']],
      [PyList [PyInt 5, PyStr ''e'']]]"
    by code_simp
  have q: "insert_sql ''t'' [''a'', ''b''] = ''INSERT INTO t (a,b) VALUES (%s, %s)''"
    by code_simp
  have l: "length five_records = 5"
    by (simp add: five_records_def)
  have t: "timeline (new_events demo_world
      (snd (batch_insert healthy_driver demo_config ''t'' [''a'', ''b''] five_records 2 demo_world))) =
     [Statement ''INSERT INTO t (a,b) VALUES (%s, %s)''
        (PyList [PyList [PyInt 1, PyStr ''a''], PyList [PyInt 2, PyStr ''b'']]), Wait (3 / 2),
      Statement ''INSERT INTO t (a,b) VALUES (%s, %s)''
        (PyList [PyList [PyInt 3, PyStr ''c''], PyList [PyInt 4, PyStr ''d'']]), Wait (3 / 2),
      Statement ''INSERT INTO t (a,b) VALUES (%s, %s)''
        (PyList [PyList [PyInt 5, PyStr ''e'']]), Wait (3 / 2)]"
    by code_simp
  show ?thesis
    using batch_insert_chunks[OF r, of healthy_driver demo_config "''t''" "[''a'', ''b'']"
        five_records demo_world] l t
    unfolding c q by simp
qed

text \<open>
  Claim C7 as stated fails in two ways. With \<open>batch_size = -1\<close> the range of the loop is
  empty: the five records are not split, no call is made and \<^verbatim>\<open>batch_insert\<close> returns.
  With \<open>batch_size = 2\<close> and a server that rejects the statement, the first call raises
  and the other two chunks are never sent: one statement is issued, not three.
\<close>

theorem batch_insert_calls_counterexample:
  "five_records \<noteq> [] \<and>
   batch_insert healthy_driver demo_config ''t'' [''a'', ''b''] five_records (- 1) demo_world =
     (Returned PyNone, demo_world) \<and>
   fst (batch_insert rejecting_driver demo_config ''t'' [''a'', ''b''] five_records 2 demo_world) =
     Raised (MySQLError ''1062 Duplicate entry'') \<and>
   timeline (new_events demo_world
      (snd (batch_insert rejecting_driver demo_config ''t'' [''a'', ''b''] five_records 2 demo_world))) =
     [Statement ''INSERT INTO t (a,b) VALUES (%s, %s)''
        (PyList [PyList [PyInt 1, PyStr ''a''], PyList [PyInt 2, PyStr ''b'']]), Wait (3 / 2)]"
  by code_simp

end
